theory Spec2Isabelle
  imports Main
begin

section \<open>Text, characters and the character classes of the patterns\<close>

text \<open>
  The script \<^verbatim>\<open>scripts/fix_all_markdown.py\<close> reads a file as text and works on a Python
  \<^verbatim>\<open>str\<close>. A text is modelled as a \<open>string\<close> whose characters are the code points
  below 256; the classes \<^verbatim>\<open>\s\<close>, \<^verbatim>\<open>\d\<close> and \<^verbatim>\<open>\w\<close> are the ones Python's \<^verbatim>\<open>re\<close>
  uses for \<^verbatim>\<open>str\<close> patterns, cut down to that range.
\<close>

abbreviation NL :: char where
  "NL \<equiv> CHR 0x0A"

abbreviation BT :: char where
  "BT \<equiv> CHR 0x60"

text \<open>\<^verbatim>\<open>\s\<close>, and the characters \<^verbatim>\<open>str.strip()\<close> removes: tab, line feed, vertical tab, form
  feed, carriage return, the separators 0x1C to 0x1F, space, NEL (0x85) and the no-break
  space (0xA0).\<close>

definition is_space :: "char \<Rightarrow> bool" where
  "is_space c =
     (let n = (of_char c :: nat)
      in (9 \<le> n \<and> n \<le> 13) \<or> (28 \<le> n \<and> n \<le> 32) \<or> n = 133 \<or> n = 160)"

text \<open>\<^verbatim>\<open>\d\<close>: the decimal digits.\<close>

definition is_digit :: "char \<Rightarrow> bool" where
  "is_digit c = (let n = (of_char c :: nat) in 48 \<le> n \<and> n \<le> 57)"

text \<open>\<^verbatim>\<open>\w\<close>: the alphanumeric characters and the underscore.\<close>

definition is_word :: "char \<Rightarrow> bool" where
  "is_word c =
     (let n = (of_char c :: nat)
      in (48 \<le> n \<and> n \<le> 57) \<or> (65 \<le> n \<and> n \<le> 90) \<or> n = 95 \<or> (97 \<le> n \<and> n \<le> 122)
         \<or> n = 170 \<or> n = 178 \<or> n = 179 \<or> n = 181 \<or> n = 185 \<or> n = 186
         \<or> (188 \<le> n \<and> n \<le> 190) \<or> (192 \<le> n \<and> n \<le> 214)
         \<or> (216 \<le> n \<and> n \<le> 246) \<or> (248 \<le> n \<and> n \<le> 255))"

text \<open>\<^verbatim>\<open>content.split('\n')\<close>: never the empty list.\<close>

fun split_nl :: "string \<Rightarrow> string list" where
  "split_nl [] = [[]]"
| "split_nl (c # cs) =
     (if c = NL then [] # split_nl cs
      else (case split_nl cs of [] \<Rightarrow> [[c]] | l # ls \<Rightarrow> (c # l) # ls))"

text \<open>\<^verbatim>\<open>'\n'.join(lines)\<close>.\<close>

fun join_nl :: "string list \<Rightarrow> string" where
  "join_nl [] = []"
| "join_nl [l] = l"
| "join_nl (l # m # ls) = l @ NL # join_nl (m # ls)"

text \<open>\<^verbatim>\<open>line.strip()\<close>.\<close>

definition strip :: "string \<Rightarrow> string" where
  "strip s = rev (dropWhile is_space (rev (dropWhile is_space s)))"

section \<open>Line classification\<close>

text \<open>
  \<^verbatim>\<open>re.match(r'^#{1,6}\s+', line)\<close>: the line starts with a run of one to six \<^verbatim>\<open>#\<close> and the
  character after the run is white space. (A run of seven or more does not match: after six
  of them the next character is a \<^verbatim>\<open>#\<close>.)
\<close>

definition is_header :: "string \<Rightarrow> bool" where
  "is_header line =
     (let k = length (takeWhile (\<lambda>c. c = CHR ''#'') line)
      in 1 \<le> k \<and> k \<le> 6 \<and> (case drop k line of [] \<Rightarrow> False | c # _ \<Rightarrow> is_space c))"

text \<open>
  \<^verbatim>\<open>re.match(r'^[\s]*[-*+]\s+', line)\<close>: after the leading white space comes a bullet and
  then a white-space character.
\<close>

definition is_bullet_item :: "string \<Rightarrow> bool" where
  "is_bullet_item line =
     (case dropWhile is_space line of
        b # w # _ \<Rightarrow> (b = CHR ''-'' \<or> b = CHR ''*'' \<or> b = CHR ''+'') \<and> is_space w
      | _ \<Rightarrow> False)"

text \<open>
  \<^verbatim>\<open>re.match(r'^[\s]*\d+\.\s+', line)\<close>: after the leading white space comes a run of
  digits, a full stop and a white-space character.
\<close>

definition is_ordered_item :: "string \<Rightarrow> bool" where
  "is_ordered_item line =
     (let r = dropWhile is_space line
      in takeWhile is_digit r \<noteq> [] \<and>
         (case dropWhile is_digit r of
            d # w # _ \<Rightarrow> d = CHR ''.'' \<and> is_space w
          | _ \<Rightarrow> False))"

definition is_list_item :: "string \<Rightarrow> bool" where
  "is_list_item line = (is_bullet_item line \<or> is_ordered_item line)"

text \<open>\<^verbatim>\<open>line.strip().startswith('```')\<close>.\<close>

definition is_fence :: "string \<Rightarrow> bool" where
  "is_fence line = (take 3 (strip line) = [BT, BT, BT])"

section \<open>First pass: headers and lists\<close>

text \<open>
  The \<^verbatim>\<open>while i < len(lines)\<close> loop of \<^verbatim>\<open>fix_markdown_file\<close>, with the index \<open>i\<close> and the
  list \<open>fixed\<close> (\<^verbatim>\<open>fixed_lines\<close>) as arguments. \<open>prev\<close> and \<open>nxt\<close> are read from the
  original \<open>lines\<close>, and are the empty string at the two ends.
\<close>

function pass1_loop :: "string list \<Rightarrow> nat \<Rightarrow> string list \<Rightarrow> string list" where
  "pass1_loop lines i fixed =
     (if i < length lines then
        (let line = lines ! i;
             prev = (if i > 0 then lines ! (i - 1) else []);
             nxt = (if i < length lines - 1 then lines ! (i + 1) else [])
         in if is_header line then
              (let fixed1 = (if i > 0 \<and> strip prev \<noteq> [] then fixed @ [[]] else fixed);
                   fixed2 = fixed1 @ [line]
               in if i < length lines - 1 \<and> strip nxt \<noteq> [] \<and> \<not> is_header nxt then
                    (let j = i + 1;
                         fixed3 = (if j < length lines then fixed2 @ [[]] else fixed2)
                     in pass1_loop lines (j + 1) fixed3)
                  else pass1_loop lines (i + 1) fixed2)
            else if is_list_item line then
              (let fixed1 = (if \<not> is_list_item prev \<and> strip prev \<noteq> [] then fixed @ [[]]
                             else fixed);
                   fixed2 = fixed1 @ [line]
               in if \<not> is_list_item nxt \<and> strip nxt \<noteq> [] then
                    pass1_loop lines (i + 1) (fixed2 @ [line] @ [[]])
                  else pass1_loop lines (i + 1) fixed2)
            else pass1_loop lines (i + 1) (fixed @ [line]))
      else fixed)"
  by pat_completeness auto
termination
  by (relation "measure (\<lambda>(lines, i, fixed). length lines - i)") auto

declare pass1_loop.simps [simp del]

definition pass1 :: "string list \<Rightarrow> string list" where
  "pass1 lines = pass1_loop lines 0 []"

section \<open>Second pass: fenced code blocks\<close>

text \<open>
  The \<^verbatim>\<open>for i, line in enumerate(fixed_lines)\<close> loop, with the index and \<open>result\<close>
  (\<^verbatim>\<open>result_lines\<close>) as arguments. The \<^verbatim>\<open>continue\<close> ends the iteration, so the index goes
  up by one in every branch.
\<close>

function pass2_loop :: "string list \<Rightarrow> nat \<Rightarrow> string list \<Rightarrow> string list" where
  "pass2_loop fixed i result =
     (if i < length fixed then
        (let line = fixed ! i;
             prev = (if i > 0 then fixed ! (i - 1) else []);
             nxt = (if i < length fixed - 1 then fixed ! (i + 1) else [])
         in if is_fence line then
              (let result1 = (if i > 0 \<and> strip prev \<noteq> [] \<and> \<not> is_fence prev
                              then result @ [[]] else result);
                   result2 = result1 @ [line]
               in if i < length fixed - 1 \<and> strip nxt \<noteq> [] \<and> \<not> is_fence nxt then
                    pass2_loop fixed (i + 1) (result2 @ [line] @ [[]])
                  else pass2_loop fixed (i + 1) result2)
            else pass2_loop fixed (i + 1) (result @ [line]))
      else result)"
  by pat_completeness auto
termination
  by (relation "measure (\<lambda>(fixed, i, result). length fixed - i)") auto

declare pass2_loop.simps [simp del]

definition pass2 :: "string list \<Rightarrow> string list" where
  "pass2 fixed = pass2_loop fixed 0 []"

section \<open>Global substitutions\<close>

subsection \<open>Bare URLs\<close>

text \<open>
  \<^verbatim>\<open>re.sub(r'(\s)(https?://[^\s\)>\]]+)(\s)', r'\1<\2>\3', content)\<close>.
  \<open>url_scheme\<close> is the length of \<^verbatim>\<open>https?://\<close> at the head of the text, \<open>url_match\<close> the
  match of groups 2 and 3 there: the URL, the white-space character after it and the rest
  of the text. The character class has no white space in it, so the greedy \<^verbatim>\<open>+\<close> stops at
  the first character outside the class and no shorter run can be followed by \<^verbatim>\<open>\s\<close>.
\<close>

definition url_char :: "char \<Rightarrow> bool" where
  "url_char c = (\<not> is_space c \<and> c \<noteq> CHR '')'' \<and> c \<noteq> CHR ''>'' \<and> c \<noteq> CHR '']'')"

definition url_scheme :: "string \<Rightarrow> nat option" where
  "url_scheme cs =
     (if take 4 cs = ''http'' then
        (if take 4 (drop 4 cs) = ''s://'' then Some 8
         else if take 3 (drop 4 cs) = ''://'' then Some 7
         else None)
      else None)"

definition url_match :: "string \<Rightarrow> (string \<times> char \<times> string) option" where
  "url_match cs =
     (case url_scheme cs of
        None \<Rightarrow> None
      | Some k \<Rightarrow>
          (let body = takeWhile url_char (drop k cs)
           in if body = [] then None
              else (case dropWhile url_char (drop k cs) of
                      [] \<Rightarrow> None
                    | w # rest \<Rightarrow>
                        if is_space w then Some (take k cs @ body, w, rest) else None)))"

lemma url_match_shorter:
  "url_match cs = Some (u, w, rest) \<Longrightarrow> length rest < length cs"
proof -
  assume m: "url_match cs = Some (u, w, rest)"
  then obtain k where r: "dropWhile url_char (drop k cs) = w # rest"
    by (auto simp: url_match_def Let_def split: option.splits list.splits if_splits)
  have "length (w # rest) \<le> length (drop k cs)"
    unfolding r [symmetric] by (rule length_dropWhile_le)
  then show ?thesis by simp
qed

text \<open>The matches are found from left to right and do not overlap: the search goes on
  after the white-space character that ended the last match.\<close>

function url_sub :: "string \<Rightarrow> string" where
  "url_sub [] = []"
| "url_sub (c # cs) =
     (if is_space c then
        (case url_match cs of
           Some (u, w, rest) \<Rightarrow> c # CHR ''<'' # u @ CHR ''>'' # w # url_sub rest
         | None \<Rightarrow> c # url_sub cs)
      else c # url_sub cs)"
  by pat_completeness auto
termination
  by (relation "measure length") (auto dest: url_match_shorter)

subsection \<open>Bare e-mail addresses\<close>

text \<open>
  \<^verbatim>\<open>re.sub(r'(\s)([\w\.-]+@[\w\.-]+\.\w+)(\s)', r'\1<\2>\3', content)\<close>.
  The local part is the whole run of \<^verbatim>\<open>[\w\.-]\<close> before the \<^verbatim>\<open>@\<close>. The part after the
  \<^verbatim>\<open>@\<close> is the whole run of \<^verbatim>\<open>[\w\.-]\<close> up to the white-space character, and
  \<^verbatim>\<open>[\w\.-]+\.\w+\<close> matches it when it ends with a full stop and a non-empty run of
  \<^verbatim>\<open>\w\<close>, with something before the full stop.
\<close>

definition email_char :: "char \<Rightarrow> bool" where
  "email_char c = (is_word c \<or> c = CHR ''.'' \<or> c = CHR ''-'')"

definition domain_ok :: "string \<Rightarrow> bool" where
  "domain_ok host =
     (takeWhile is_word (rev host) \<noteq> [] \<and>
      (case dropWhile is_word (rev host) of
         d # x # _ \<Rightarrow> d = CHR ''.''
       | _ \<Rightarrow> False))"

definition email_match :: "string \<Rightarrow> (string \<times> char \<times> string) option" where
  "email_match cs =
     (let loc = takeWhile email_char cs
      in case dropWhile email_char cs of
           [] \<Rightarrow> None
         | a # r \<Rightarrow>
             (let host = takeWhile email_char r
              in if loc \<noteq> [] \<and> a = CHR ''@'' \<and> domain_ok host then
                   (case dropWhile email_char r of
                      [] \<Rightarrow> None
                    | w # rest \<Rightarrow>
                        if is_space w then Some (loc @ a # host, w, rest) else None)
                 else None))"

lemma email_match_shorter:
  "email_match cs = Some (u, w, rest) \<Longrightarrow> length rest < length cs"
proof -
  assume m: "email_match cs = Some (u, w, rest)"
  then obtain a r where r1: "dropWhile email_char cs = a # r"
    and r2: "dropWhile email_char r = w # rest"
    by (auto simp: email_match_def Let_def split: list.splits if_splits)
  have "length (w # rest) \<le> length r"
    unfolding r2 [symmetric] by (rule length_dropWhile_le)
  moreover have "length (a # r) \<le> length cs"
    unfolding r1 [symmetric] by (rule length_dropWhile_le)
  ultimately show ?thesis by simp
qed

function email_sub :: "string \<Rightarrow> string" where
  "email_sub [] = []"
| "email_sub (c # cs) =
     (if is_space c then
        (case email_match cs of
           Some (u, w, rest) \<Rightarrow> c # CHR ''<'' # u @ CHR ''>'' # w # email_sub rest
         | None \<Rightarrow> c # email_sub cs)
      else c # email_sub cs)"
  by pat_completeness auto
termination
  by (relation "measure length") (auto dest: email_match_shorter)

subsection \<open>Runs of blank lines\<close>

text \<open>\<^verbatim>\<open>re.sub(r'\n\n\n+', '\n\n', content)\<close>: a run of three or more line feeds is
  matched whole and replaced by two.\<close>

function collapse :: "string \<Rightarrow> string" where
  "collapse [] = []"
| "collapse (c # cs) =
     (if c = NL \<and> take 2 cs = [NL, NL] then
        NL # NL # collapse (dropWhile (\<lambda>x. x = NL) cs)
      else c # collapse cs)"
  by pat_completeness auto
termination
  by (relation "measure length") (auto simp: less_Suc_eq_le length_dropWhile_le)

subsection \<open>Fences without a language\<close>

text \<open>\<^verbatim>\<open>re.sub(r'\n```\n', '\n```bash\n', content)\<close>.\<close>

fun tag_sub :: "string \<Rightarrow> string" where
  "tag_sub [] = []"
| "tag_sub (c # cs) =
     (if c = NL \<and> take 4 cs = [BT, BT, BT, NL] then
        NL # BT # BT # BT # ''bash'' @ NL # tag_sub (drop 4 cs)
      else c # tag_sub cs)"

section \<open>The transformation and the write-back\<close>

text \<open>\<open>fix_text\<close> is the value of \<^verbatim>\<open>content\<close> at the comparison with
  \<^verbatim>\<open>original_content\<close>, as a function of the text read.\<close>

definition fix_text :: "string \<Rightarrow> string" where
  "fix_text content =
     (let lines = split_nl content;
          fixed_lines = pass1 lines;
          result_lines = pass2 fixed_lines;
          content1 = join_nl result_lines;
          content2 = url_sub content1;
          content3 = email_sub content2;
          content4 = collapse content3
      in tag_sub content4)"

text \<open>
  The files: \<open>contents\<close> gives the text that \<^verbatim>\<open>f.read()\<close> returns for a path (\<open>None\<close>
  when opening or decoding fails) and \<open>writable\<close> says whether opening the path for writing
  succeeds. An exception of the source is the \<open>Inl\<close> result; the files are then as they
  were.
\<close>

datatype error = ReadError | WriteError

record files =
  contents :: "string \<rightharpoonup> string"
  writable :: "string \<Rightarrow> bool"

definition fix_markdown_file :: "files \<Rightarrow> string \<Rightarrow> (error + bool) \<times> files" where
  "fix_markdown_file fs filepath =
     (case contents fs filepath of
        None \<Rightarrow> (Inl ReadError, fs)
      | Some original_content \<Rightarrow>
          (let content = fix_text original_content
           in if content \<noteq> original_content then
                (if writable fs filepath then
                   (Inr True, fs\<lparr>contents := (contents fs)(filepath \<mapsto> content)\<rparr>)
                 else (Inl WriteError, fs))
              else (Inr False, fs)))"

text \<open>The lines of a text that are not blank: the content lines counted by the
  no-data-loss property.\<close>

definition content_lines :: "string \<Rightarrow> string list" where
  "content_lines s = filter (\<lambda>l. strip l \<noteq> []) (split_nl s)"

text \<open>A text has three line feeds in a row.\<close>

fun has_triple_nl :: "string \<Rightarrow> bool" where
  "has_triple_nl (a # b # c # cs) =
     ((a = NL \<and> b = NL \<and> c = NL) \<or> has_triple_nl (b # c # cs))"
| "has_triple_nl _ = False"

text \<open>A text starts with two line feeds.\<close>

fun nl2 :: "string \<Rightarrow> bool" where
  "nl2 (a # b # _) = (a = NL \<and> b = NL)"
| "nl2 _ = False"

text \<open>The pattern \<open>p\<close> occurs in a text, at any position.\<close>

fun occurs :: "string \<Rightarrow> string \<Rightarrow> bool" where
  "occurs p [] = (p = [])"
| "occurs p (c # cs) = (take (length p) (c # cs) = p \<or> occurs p cs)"

text \<open>Two files for the examples: one that the transformation changes and that can be
  written, one that it leaves as it is and that cannot be written.\<close>

definition example_files :: files where
  "example_files =
     \<lparr>contents = [''a.md'' \<mapsto> ''See https://example.com for details'',
                  ''b.md'' \<mapsto> ''plain text''],
      writable = (\<lambda>p. p = ''a.md'')\<rparr>"

text \<open>No match of the URL pattern starts at one of the first \<open>n\<close> positions of a text.\<close>

fun url_free_prefix :: "nat \<Rightarrow> string \<Rightarrow> bool" where
  "url_free_prefix 0 s = True"
| "url_free_prefix (Suc n) [] = True"
| "url_free_prefix (Suc n) (c # cs) =
     (\<not> (is_space c \<and> url_match cs \<noteq> None) \<and> url_free_prefix n cs)"

text \<open>The two strings that \<^verbatim>\<open>https?://\<close> matches.\<close>

definition is_scheme :: "string \<Rightarrow> bool" where
  "is_scheme s = (s = ''http://'' \<or> s = ''https://'')"

text \<open>\<^verbatim>\<open>line.strip() == ''\<close>.\<close>

definition blank :: "string \<Rightarrow> bool" where
  "blank l = (strip l = [])"

text \<open>The first of a list of lines, the empty string when there is none; the lines before
  and after the index \<open>i\<close> as the loops read them.\<close>

definition hd0 :: "string list \<Rightarrow> string" where
  "hd0 ls = (case ls of [] \<Rightarrow> [] | l # _ \<Rightarrow> l)"

definition prev_at :: "string list \<Rightarrow> nat \<Rightarrow> string" where
  "prev_at L i = (if i > 0 then L ! (i - 1) else [])"



text \<open>
  A line between the lines \<open>p\<close> and \<open>n\<close> is spaced when the first pass has nothing to add
  around it: a header has a blank line before it and a blank line or a header after it, a
  list item has a list item or a blank line on each side. A list of lines is spaced when
  every line is, the line before the first being \<open>p\<close>.
\<close>

definition ok1 :: "string \<Rightarrow> string \<Rightarrow> string \<Rightarrow> bool" where
  "ok1 p l n =
     (if is_header l then blank p \<and> (blank n \<or> is_header n)
      else if is_list_item l then (is_list_item p \<or> blank p) \<and> (is_list_item n \<or> blank n)
      else True)"


text \<open>No match of the URL pattern, or of the e-mail pattern, anywhere in a text.\<close>

fun url_free :: "string \<Rightarrow> bool" where
  "url_free [] = True"
| "url_free (c # cs) = (\<not> (is_space c \<and> url_match cs \<noteq> None) \<and> url_free cs)"

fun email_free :: "string \<Rightarrow> bool" where
  "email_free [] = True"
| "email_free (c # cs) = (\<not> (is_space c \<and> email_match cs \<noteq> None) \<and> email_free cs)"



text \<open>
  A line between the lines \<open>p\<close> and \<open>n\<close> is fenced when the second pass has nothing to add
  around it: a fence line has a blank line or a fence line on each side. A list of lines
  is fenced when every line is, the line before the first being \<open>p\<close>.
\<close>

definition ok2 :: "string \<Rightarrow> string \<Rightarrow> string \<Rightarrow> bool" where
  "ok2 p l n = (if is_fence l then (blank p \<or> is_fence p) \<and> (blank n \<or> is_fence n) else True)"


text \<open>
  A text is match-free when none of the three patterns whose substitution adds characters
  matches anywhere in it: the URL pattern, the e-mail pattern, and \<^verbatim>\<open>\n```\n\<close>.
\<close>

definition match_free :: "string \<Rightarrow> bool" where
  "match_free t = (url_free t \<and> email_free t \<and> \<not> occurs [NL, BT, BT, BT, NL] t)"




section \<open>The header branch loses the line after a header\<close>

text \<open>
  C1 (no data loss: the non-blank lines of the output are those of the input).
  On the three lines \<^verbatim>\<open>Title\<close>, \<^verbatim>\<open># Heading\<close>, \<^verbatim>\<open>Body\<close> the header branch adds one to \<open>i\<close>
  before it appends the blank line and once more before \<^verbatim>\<open>continue\<close>, so \<^verbatim>\<open>Body\<close> is never
  appended: the input has three content lines and the output two.
\<close>

theorem header_branch_loses_content_line:
  "content_lines (join_nl [''Title'', ''# Heading'', ''Body'']) =
     [''Title'', ''# Heading'', ''Body''] \<and>
   content_lines (fix_text (join_nl [''Title'', ''# Heading'', ''Body''])) =
     [''Title'', ''# Heading'']"
  by code_simp

text \<open>
  C2 (header spacing: \<^verbatim>\<open>"Title\n# Heading\nBody"\<close> becomes
  \<^verbatim>\<open>"Title\n\n# Heading\n\nBody"\<close>). The code returns \<^verbatim>\<open>"Title\n\n# Heading\n"\<close>: the blank
  line before the header is there, the one after it takes the place of \<^verbatim>\<open>Body\<close>.
\<close>

theorem header_spacing_example:
  "fix_text (join_nl [''Title'', ''# Heading'', ''Body'']) =
     join_nl [''Title'', [], ''# Heading'', []] \<and>
   fix_text (join_nl [''Title'', ''# Heading'', ''Body'']) \<noteq>
     join_nl [''Title'', [], ''# Heading'', [], ''Body'']"
  by code_simp

section \<open>The list and fence branches append the line twice\<close>

text \<open>
  C3 (list spacing: \<^verbatim>\<open>"Para\n- item1\n- item2\nPara2"\<close> becomes
  \<^verbatim>\<open>"Para\n\n- item1\n- item2\n\nPara2"\<close>, each item once). The branch that adds the blank
  line after the last item appends the item a second time, so the code returns
  \<^verbatim>\<open>"Para\n\n- item1\n- item2\n- item2\n\nPara2"\<close>.
\<close>

theorem list_spacing_example:
  "fix_text (join_nl [''Para'', ''- item1'', ''- item2'', ''Para2'']) =
     join_nl [''Para'', [], ''- item1'', ''- item2'', ''- item2'', [], ''Para2''] \<and>
   fix_text (join_nl [''Para'', ''- item1'', ''- item2'', ''Para2'']) \<noteq>
     join_nl [''Para'', [], ''- item1'', ''- item2'', [], ''Para2'']"
  by code_simp

text \<open>
  C5 (fence pass: a blank line before and after a fence line where the neighbour is neither
  blank nor a fence, every input line exactly once in the output). On the lines \<^verbatim>\<open>a\<close>,
  \<^verbatim>\<open>```\<close>, \<^verbatim>\<open>b\<close> both blank lines are added, and the fence line is in the output twice.
\<close>

theorem fence_pass_example:
  "pass2 [''a'', ''```'', ''b''] = [''a'', [], ''```'', ''```'', [], ''b'']"
  by code_simp

section \<open>Blank lines after the collapsing\<close>

lemma take2_nl2: "(take 2 s = [NL, NL]) = nl2 s"
proof (cases s)
  case Nil
  then show ?thesis by simp
next
  case (Cons b t)
  then show ?thesis by (cases t) auto
qed

lemma nl2_Cons: "nl2 (a # s) = (a = NL \<and> s \<noteq> [] \<and> hd s = NL)"
  by (cases s) auto

lemma has_triple_nl_Cons:
  "has_triple_nl (a # s) = ((a = NL \<and> nl2 s) \<or> has_triple_nl s)"
proof (cases s)
  case Nil
  then show ?thesis by simp
next
  case (Cons b t)
  then show ?thesis by (cases t) auto
qed

lemma collapse_Nil_iff: "collapse s = [] \<longleftrightarrow> s = []"
  by (cases s) auto

lemma hd_collapse: "hd (collapse s) = hd s"
  by (cases s) auto


lemma nl2_hd: "nl2 s \<Longrightarrow> s \<noteq> [] \<and> hd s = NL"
  by (cases s) (auto simp: nl2_Cons)

lemma nl2_collapse:
  assumes a: "nl2 (collapse s)"
  shows "nl2 s"
proof (cases s)
  case Nil
  with a show ?thesis by simp
next
  case (Cons c cs)
  show ?thesis
  proof (cases "c = NL \<and> take 2 cs = [NL, NL]")
    case True
    with Cons nl2_hd [of cs] show ?thesis by (simp add: take2_nl2 nl2_Cons)
  next
    case False
    with Cons a have "nl2 (c # collapse cs)" by simp
    then have "c = NL \<and> collapse cs \<noteq> [] \<and> hd (collapse cs) = NL"
      by (simp add: nl2_Cons)
    then have "c = NL \<and> cs \<noteq> [] \<and> hd cs = NL"
      by (simp add: collapse_Nil_iff hd_collapse)
    with Cons show ?thesis by (simp add: nl2_Cons)
  qed
qed

lemma not_nl2_after_run: "\<not> nl2 (NL # collapse (dropWhile (\<lambda>x. x = NL) cs))"
proof -
  have "dropWhile (\<lambda>x. x = NL) cs = [] \<or> hd (dropWhile (\<lambda>x. x = NL) cs) \<noteq> NL"
    using hd_dropWhile [of "\<lambda>x. x = NL" cs] by blast
  then show ?thesis
    by (simp only: nl2_Cons collapse_Nil_iff hd_collapse) blast
qed

lemma no_triple_collapse: "\<not> has_triple_nl (collapse s)"
proof (induction s rule: collapse.induct)
  case 1
  then show ?case by simp
next
  case (2 c cs)
  show ?case
  proof (cases "c = NL \<and> take 2 cs = [NL, NL]")
    case True
    then have e: "collapse (c # cs) = NL # NL # collapse (dropWhile (\<lambda>x. x = NL) cs)"
      by simp
    from True 2 have "\<not> has_triple_nl (collapse (dropWhile (\<lambda>x. x = NL) cs))"
      by blast
    with not_nl2_after_run [of cs] nl2_hd [of "collapse (dropWhile (\<lambda>x. x = NL) cs)"]
    show ?thesis
      unfolding e by (auto simp: has_triple_nl_Cons nl2_Cons)
  next
    case False
    then have e: "collapse (c # cs) = c # collapse cs" by auto
    from False 2 have "\<not> has_triple_nl (collapse cs)" by blast
    moreover have "\<not> (c = NL \<and> nl2 (collapse cs))"
      using False nl2_collapse [of cs] by (auto simp: take2_nl2)
    ultimately show ?thesis
      unfolding e by (simp only: has_triple_nl_Cons) blast
  qed
qed

lemma tag_sub_Nil_iff: "tag_sub s = [] \<longleftrightarrow> s = []"
  by (cases s) auto

lemma hd_tag_sub: "hd (tag_sub s) = hd s"
  by (cases s) auto

lemma take4_eq: "take 4 cs = [a, b, c, d] \<Longrightarrow> cs = a # b # c # d # drop 4 cs"
  using append_take_drop_id [of 4 cs] by simp

lemma nl2_tag_sub:
  assumes a: "nl2 (tag_sub s)"
  shows "nl2 s"
proof (cases s)
  case Nil
  with a show ?thesis by simp
next
  case (Cons c cs)
  show ?thesis
  proof (cases "c = NL \<and> take 4 cs = [BT, BT, BT, NL]")
    case True
    with Cons a show ?thesis by simp
  next
    case False
    with Cons a have "nl2 (c # tag_sub cs)" by simp
    then have "c = NL \<and> tag_sub cs \<noteq> [] \<and> hd (tag_sub cs) = NL"
      by (simp add: nl2_Cons)
    then have "c = NL \<and> cs \<noteq> [] \<and> hd cs = NL"
      by (simp add: tag_sub_Nil_iff hd_tag_sub)
    with Cons show ?thesis by (simp add: nl2_Cons)
  qed
qed

lemma no_triple_tag_sub: "\<not> has_triple_nl s \<Longrightarrow> \<not> has_triple_nl (tag_sub s)"
proof (induction s rule: tag_sub.induct)
  case 1
  then show ?case by simp
next
  case (2 c cs)
  show ?case
  proof (cases "c = NL \<and> take 4 cs = [BT, BT, BT, NL]")
    case True
    then have cs: "cs = BT # BT # BT # NL # drop 4 cs" by (simp add: take4_eq)
    have e: "tag_sub (c # cs) = NL # BT # BT # BT # ''bash'' @ NL # tag_sub (drop 4 cs)"
      using True by simp
    from "2.prems" have "\<not> has_triple_nl (NL # drop 4 cs)"
      by (subst (asm) cs) (simp add: has_triple_nl_Cons)
    then have a: "\<not> nl2 (drop 4 cs)" and b: "\<not> has_triple_nl (drop 4 cs)"
      by (simp_all add: has_triple_nl_Cons)
    from b True 2 have "\<not> has_triple_nl (tag_sub (drop 4 cs))" by blast
    with a nl2_tag_sub [of "drop 4 cs"] show ?thesis
      unfolding e by (auto simp: has_triple_nl_Cons nl2_Cons)
  next
    case False
    then have e: "tag_sub (c # cs) = c # tag_sub cs" by auto
    from "2.prems" have "\<not> (c = NL \<and> nl2 cs)" and "\<not> has_triple_nl cs"
      by (simp_all add: has_triple_nl_Cons)
    with False 2 nl2_tag_sub [of cs] show ?thesis
      unfolding e by (auto simp: has_triple_nl_Cons)
  qed
qed

lemma collapse_skip:
  "\<not> (c = NL \<and> take 2 cs = [NL, NL]) \<Longrightarrow> collapse (c # cs) = c # collapse cs"
  by auto

lemma collapse_match:
  "take 2 cs = [NL, NL] \<Longrightarrow>
   collapse (NL # cs) = NL # NL # collapse (dropWhile (\<lambda>x. x = NL) cs)"
  by simp

lemma take2_append: "2 \<le> length cs \<Longrightarrow> take 2 (cs @ t) = take 2 cs"
  by simp

lemma collapse_append:
  "xs = [] \<or> last xs \<noteq> NL \<Longrightarrow> collapse (xs @ t) = collapse xs @ collapse t"
proof (induction xs rule: collapse.induct)
  case 1
  show ?case by simp
next
  case (2 c cs)
  from "2.prems" have l: "last (c # cs) \<noteq> NL" by simp
  show ?case
  proof (cases "c = NL \<and> take 2 cs = [NL, NL]")
    case True
    then have "length (take 2 cs) = 2" by simp
    then have len: "2 \<le> length cs" by simp
    then have ne: "cs \<noteq> []" by auto
    with l have lc: "last cs \<noteq> NL" by simp
    from ne have "last cs \<in> set cs" by simp
    with lc have ex: "\<exists>x\<in>set cs. \<not> x = NL" by blast
    have dw: "dropWhile (\<lambda>x. x = NL) (cs @ t) = dropWhile (\<lambda>x. x = NL) cs @ t"
      using dropWhile_append1 [of "last cs" cs "\<lambda>x. x = NL" t] ne lc by simp
    from ex have dne: "dropWhile (\<lambda>x. x = NL) cs \<noteq> []" by simp
    have "\<exists>p. cs = p @ dropWhile (\<lambda>x. x = NL) cs"
      using takeWhile_dropWhile_id [of "\<lambda>x. x = NL" cs] by metis
    with dne have "last (dropWhile (\<lambda>x. x = NL) cs) = last cs" by (metis last_appendR)
    with lc have "dropWhile (\<lambda>x. x = NL) cs = [] \<or> last (dropWhile (\<lambda>x. x = NL) cs) \<noteq> NL"
      by simp
    with True "2.IH"(1) have ih: "collapse (dropWhile (\<lambda>x. x = NL) cs @ t) =
        collapse (dropWhile (\<lambda>x. x = NL) cs) @ collapse t" by blast
    have t2: "take 2 (cs @ t) = [NL, NL]" using True len by simp
    have "collapse (NL # (cs @ t)) = NL # NL # collapse (dropWhile (\<lambda>x. x = NL) (cs @ t))"
      using t2 by (rule collapse_match)
    moreover have "collapse (NL # cs) = NL # NL # collapse (dropWhile (\<lambda>x. x = NL) cs)"
      using True by (intro collapse_match) blast
    ultimately show ?thesis using True by (simp add: dw ih del: collapse.simps)
  next
    case False
    have n: "\<not> (c = NL \<and> take 2 (cs @ t) = [NL, NL])"
    proof
      assume a: "c = NL \<and> take 2 (cs @ t) = [NL, NL]"
      show False
      proof (cases "2 \<le> length cs")
        case True
        with a False show False by simp
      next
        case short: False
        then have "length cs = 0 \<or> length cs = 1" by arith
        then have "cs = [] \<or> (\<exists>x. cs = [x])"
          by (auto simp: length_Suc_conv)
        then show False
        proof
          assume "cs = []"
          with a l show False by simp
        next
          assume "\<exists>x. cs = [x]"
          then obtain x where "cs = [x]" by blast
          with a l show False by simp
        qed
      qed
    qed
    have c1: "cs = [] \<or> last cs \<noteq> NL" using l by (cases cs) auto
    have "collapse (c # (cs @ t)) = c # collapse (cs @ t)" using n by (rule collapse_skip)
    moreover have "collapse (c # cs) = c # collapse cs" using False by (rule collapse_skip)
    moreover have "collapse (cs @ t) = collapse cs @ collapse t"
      using False c1 "2.IH"(2) by blast
    ultimately show ?thesis by (simp del: collapse.simps)
  qed
qed

lemma dropWhile_replicate_nl:
  "ys = [] \<or> hd ys \<noteq> NL \<Longrightarrow> dropWhile (\<lambda>x. x = NL) (replicate n NL @ ys) = ys"
proof (induction n)
  case 0
  then show ?case by (cases ys) auto
next
  case (Suc n)
  then show ?case by simp
qed

lemma collapse_replicate:
  assumes "3 \<le> n" and "ys = [] \<or> hd ys \<noteq> NL"
  shows "collapse (replicate n NL @ ys) = NL # NL # collapse ys"
proof -
  from assms(1) obtain m where n: "n = Suc (Suc (Suc m))"
    by (metis Suc_le_D numeral_3_eq_3 Suc_le_mono)
  have "replicate n NL @ ys = NL # (NL # NL # replicate m NL @ ys)" by (simp add: n)
  moreover have "take 2 (NL # NL # replicate m NL @ ys) = [NL, NL]" by simp
  ultimately have "collapse (replicate n NL @ ys) =
      NL # NL # collapse (dropWhile (\<lambda>x. x = NL) (NL # NL # replicate m NL @ ys))"
    by (simp only: collapse_match)
  also have "dropWhile (\<lambda>x. x = NL) (NL # NL # replicate m NL @ ys) = ys"
    using dropWhile_replicate_nl [OF assms(2), of "Suc (Suc m)"] by simp
  finally show ?thesis .
qed

lemma collapse_run:
  assumes "3 \<le> n" and "xs = [] \<or> last xs \<noteq> NL" and "ys = [] \<or> hd ys \<noteq> NL"
  shows "collapse (xs @ replicate n NL @ ys) = collapse xs @ NL # NL # collapse ys"
  using collapse_append [OF assms(2)] collapse_replicate [OF assms(1,3)] by simp

text \<open>
  C8 (blank-line collapsing: every run of three or more line feeds is collapsed to two, so
  the final content never has three line feeds in a row; four in the input become two).
  The collapsing leaves no run of three, and the fence tagging that follows it adds no line
  feed next to another; a run of \<open>n \<ge> 3\<close> line feeds between a text that does not end
  with a line feed and one that does not start with one becomes two line feeds.
\<close>

theorem no_triple_nl_fix_text:
  "\<not> has_triple_nl (fix_text s) \<and>
   (3 \<le> n \<and> (xs = [] \<or> last xs \<noteq> NL) \<and> (ys = [] \<or> hd ys \<noteq> NL) \<longrightarrow>
      collapse (xs @ replicate n NL @ ys) = collapse xs @ NL # NL # collapse ys) \<and>
   fix_text (''a'' @ [NL, NL, NL, NL] @ ''b'') = ''a'' @ [NL, NL] @ ''b''"
proof (intro conjI impI)
  show "\<not> has_triple_nl (fix_text s)"
    unfolding fix_text_def Let_def by (rule no_triple_tag_sub) (rule no_triple_collapse)
  show "fix_text (''a'' @ [NL, NL, NL, NL] @ ''b'') = ''a'' @ [NL, NL] @ ''b''"
    by code_simp
  assume "3 \<le> n \<and> (xs = [] \<or> last xs \<noteq> NL) \<and> (ys = [] \<or> hd ys \<noteq> NL)"
  then show "collapse (xs @ replicate n NL @ ys) = collapse xs @ NL # NL # collapse ys"
    using collapse_run [of n xs ys] by blast
qed

theorem no_triple_nl_fix_text_witness:
  "collapse (''a'' @ replicate 4 NL @ ''b'') = ''a'' @ NL # NL # ''b''"
  using no_triple_nl_fix_text [of "''a''" 4 "''a''" "''b''"] by simp

section \<open>The fence tagging\<close>

lemma take4_append_fence:
  "(take 4 (cs @ [BT, BT, BT]) = [BT, BT, BT, NL]) = (take 4 cs = [BT, BT, BT, NL])"
proof (cases "4 \<le> length cs")
  case True
  then show ?thesis by simp
next
  case False
  then have l: "length cs < 4" by simp
  have "take 4 cs \<noteq> [BT, BT, BT, NL]"
  proof
    assume "take 4 cs = [BT, BT, BT, NL]"
    then have "length (take 4 cs) = 4" by simp
    with l show False by simp
  qed
  moreover have "take 4 (cs @ [BT, BT, BT]) \<noteq> [BT, BT, BT, NL]"
  proof
    assume a: "take 4 (cs @ [BT, BT, BT]) = [BT, BT, BT, NL]"
    then have "length (take 4 (cs @ [BT, BT, BT])) = 4" by simp
    then have l1: "1 \<le> length cs" by simp
    have "take 4 (cs @ [BT, BT, BT]) ! 3 = (cs @ [BT, BT, BT]) ! 3" by (rule nth_take) simp
    with a have "(cs @ [BT, BT, BT]) ! 3 = NL" by simp
    with l l1 have "[BT, BT, BT] ! (3 - length cs) = NL"
      by (simp add: nth_append)
    moreover from l l1 have "3 - length cs = 0 \<or> 3 - length cs = 1 \<or> 3 - length cs = 2"
      by arith
    ultimately show False by auto
  qed
  ultimately show ?thesis by simp
qed

lemma tag_sub_match:
  "take 4 cs = [BT, BT, BT, NL] \<Longrightarrow>
   tag_sub (NL # cs) = NL # BT # BT # BT # ''bash'' @ NL # tag_sub (drop 4 cs)"
  by simp

lemma tag_sub_skip:
  "\<not> (c = NL \<and> take 4 cs = [BT, BT, BT, NL]) \<Longrightarrow> tag_sub (c # cs) = c # tag_sub cs"
  by auto

lemma tag_sub_append_fence: "tag_sub (t @ [BT, BT, BT]) = tag_sub t @ [BT, BT, BT]"
proof (induction t rule: tag_sub.induct)
  case 1
  show ?case by simp
next
  case (2 c cs)
  show ?case
  proof (cases "c = NL \<and> take 4 cs = [BT, BT, BT, NL]")
    case True
    then have "length (take 4 cs) = 4" by simp
    then have l: "4 \<le> length cs" by simp
    from True have m: "take 4 (cs @ [BT, BT, BT]) = [BT, BT, BT, NL]"
      using take4_append_fence [of cs] by blast
    have "tag_sub (NL # (cs @ [BT, BT, BT])) =
        NL # BT # BT # BT # ''bash'' @ NL # tag_sub (drop 4 (cs @ [BT, BT, BT]))"
      by (rule tag_sub_match [OF m])
    also have "drop 4 (cs @ [BT, BT, BT]) = drop 4 cs @ [BT, BT, BT]"
      using l by simp
    also have "tag_sub (drop 4 cs @ [BT, BT, BT]) = tag_sub (drop 4 cs) @ [BT, BT, BT]"
      using True 2 by blast
    finally have "tag_sub (NL # (cs @ [BT, BT, BT])) =
        NL # BT # BT # BT # ''bash'' @ NL # tag_sub (drop 4 cs) @ [BT, BT, BT]" .
    moreover have "tag_sub (NL # cs) = NL # BT # BT # BT # ''bash'' @ NL # tag_sub (drop 4 cs)"
      using True by (intro tag_sub_match) blast
    ultimately show ?thesis using True by (simp del: tag_sub.simps)
  next
    case False
    then have n: "\<not> (c = NL \<and> take 4 (cs @ [BT, BT, BT]) = [BT, BT, BT, NL])"
      using take4_append_fence [of cs] by blast
    have "tag_sub (c # (cs @ [BT, BT, BT])) = c # tag_sub (cs @ [BT, BT, BT])"
      by (rule tag_sub_skip [OF n])
    also have "tag_sub (cs @ [BT, BT, BT]) = tag_sub cs @ [BT, BT, BT]"
      using False 2 by blast
    finally have "tag_sub (c # (cs @ [BT, BT, BT])) = c # tag_sub cs @ [BT, BT, BT]" .
    moreover have "tag_sub (c # cs) = c # tag_sub cs" by (rule tag_sub_skip [OF False])
    ultimately show ?thesis by (simp del: tag_sub.simps)
  qed
qed

lemma last_tag_sub: "s \<noteq> [] \<Longrightarrow> last (tag_sub s) = last s"
proof (induction s rule: tag_sub.induct)
  case 1
  then show ?case by simp
next
  case (2 c cs)
  show ?case
  proof (cases "c = NL \<and> take 4 cs = [BT, BT, BT, NL]")
    case True
    then have cs: "cs = BT # BT # BT # NL # drop 4 cs" by (simp add: take4_eq)
    have e: "tag_sub (c # cs) = NL # BT # BT # BT # ''bash'' @ NL # tag_sub (drop 4 cs)"
      using True by simp
    show ?thesis
    proof (cases "drop 4 cs = []")
      case True
      with cs have "cs = [BT, BT, BT, NL]" by simp
      then show ?thesis by simp
    next
      case False
      with True 2 have "last (tag_sub (drop 4 cs)) = last (drop 4 cs)" by blast
      moreover from False have "last (c # cs) = last (drop 4 cs)"
        by (subst cs) simp
      ultimately show ?thesis
        unfolding e using False by (simp add: tag_sub_Nil_iff)
    qed
  next
    case False
    then have e: "tag_sub (c # cs) = c # tag_sub cs" by auto
    show ?thesis
    proof (cases "cs = []")
      case True
      then show ?thesis by simp
    next
      case ne: False
      with False 2 have "last (tag_sub cs) = last cs" by blast
      with ne show ?thesis unfolding e by (simp add: tag_sub_Nil_iff)
    qed
  qed
qed

lemma tag_sub_no_occurrence:
  "\<not> occurs [NL, BT, BT, BT, NL] s \<Longrightarrow> tag_sub s = s"
proof (induction s)
  case Nil
  show ?case by simp
next
  case (Cons c cs)
  have "take (length [NL, BT, BT, BT, NL]) (c # cs) = c # take 4 cs"
    by (simp add: numeral_eq_Suc)
  with Cons.prems have "\<not> (c = NL \<and> take 4 cs = [BT, BT, BT, NL])" and "\<not> occurs [NL, BT, BT, BT, NL] cs"
    by (auto simp only: occurs.simps)
  with Cons.IH show ?case by auto
qed

text \<open>
  C10 (the tagging rewrites only a bare fence with a line feed right before and right after
  it). A bare fence on the first line stays the first line of the result, a bare fence at
  the end of the text with no line feed after it stays the end of the result, and a text
  in which line feed, three backticks, line feed does not occur is not changed at all.
\<close>

theorem tag_sub_needs_both_newlines:
  "take 4 (tag_sub (''```'' @ NL # t)) = ''```'' @ [NL] \<and>
   tag_sub ''```'' = ''```'' \<and>
   (\<exists>r. tag_sub (t @ NL # ''```'') = r @ NL # ''```'') \<and>
   (\<not> occurs (NL # ''```'' @ [NL]) s \<longrightarrow> tag_sub s = s)"
proof (intro conjI)
  have "tag_sub (NL # t) \<noteq> []" by (simp only: tag_sub_Nil_iff) simp
  moreover have "hd (tag_sub (NL # t)) = NL" by (simp only: hd_tag_sub) simp
  ultimately obtain r where "tag_sub (NL # t) = NL # r" by (cases "tag_sub (NL # t)") auto
  moreover have "tag_sub (''```'' @ NL # t) = ''```'' @ tag_sub (NL # t)" by simp
  ultimately show "take 4 (tag_sub (''```'' @ NL # t)) = ''```'' @ [NL]" by simp
  show "tag_sub ''```'' = ''```''" by simp
  have "tag_sub (t @ NL # ''```'') = tag_sub ((t @ [NL]) @ ''```'')" by simp
  also have "\<dots> = tag_sub (t @ [NL]) @ ''```''" by (rule tag_sub_append_fence)
  finally have a: "tag_sub (t @ NL # ''```'') = tag_sub (t @ [NL]) @ ''```''" .
  have ne: "tag_sub (t @ [NL]) \<noteq> []" by (simp add: tag_sub_Nil_iff)
  have "last (tag_sub (t @ [NL])) = NL" using last_tag_sub [of "t @ [NL]"] by simp
  with ne have "tag_sub (t @ [NL]) = butlast (tag_sub (t @ [NL])) @ [NL]"
    using append_butlast_last_id [of "tag_sub (t @ [NL])"] by simp
  with a have "tag_sub (t @ NL # ''```'') = butlast (tag_sub (t @ [NL])) @ NL # ''```''"
    by simp
  then show "\<exists>r. tag_sub (t @ NL # ''```'') = r @ NL # ''```''" by blast
  show "\<not> occurs (NL # ''```'' @ [NL]) s \<longrightarrow> tag_sub s = s"
    using tag_sub_no_occurrence [of s] by simp
qed

theorem tag_sub_needs_both_newlines_witness:
  "\<not> occurs (NL # ''```'' @ [NL]) (''```'' @ NL # ''x'' @ NL # ''```'') \<and>
   tag_sub (''```'' @ NL # ''x'' @ NL # ''```'') = ''```'' @ NL # ''x'' @ NL # ''```''"
  using tag_sub_needs_both_newlines [of "''x''" "''```'' @ NL # ''x'' @ NL # ''```''"]
  by simp

text \<open>
  C6 as stated (every occurrence of line feed, three backticks, line feed is rewritten)
  fails where two occurrences share a line feed: in \<^verbatim>\<open>"\n```\n```\n"\<close> the pattern
  occurs at position 0 and at position 4, and only the first fence is tagged.
\<close>

theorem tag_sub_overlap_counterexample:
  "take 5 (drop 4 (NL # ''```'' @ NL # ''```'' @ [NL])) = NL # ''```'' @ [NL] \<and>
   tag_sub (NL # ''```'' @ NL # ''```'' @ [NL]) = NL # ''```bash'' @ NL # ''```'' @ [NL]"
  by simp

lemma tag_sub_leftmost_aux:
  "\<not> occurs [NL, BT, BT, BT, NL] (pre @ [NL, BT, BT, BT]) \<Longrightarrow>
   tag_sub (pre @ NL # BT # BT # BT # NL # post) =
     pre @ NL # BT # BT # BT # ''bash'' @ NL # tag_sub post"
proof (induction pre)
  case Nil
  show ?case by simp
next
  case (Cons c p)
  have l: "4 \<le> length (p @ [NL, BT, BT, BT])" by simp
  have "take (length [NL, BT, BT, BT, NL]) (c # p @ [NL, BT, BT, BT]) =
      c # take 4 (p @ [NL, BT, BT, BT])"
    by (simp add: numeral_eq_Suc)
  with Cons.prems have a: "\<not> (c = NL \<and> take 4 (p @ [NL, BT, BT, BT]) = [BT, BT, BT, NL])"
    and b: "\<not> occurs [NL, BT, BT, BT, NL] (p @ [NL, BT, BT, BT])"
    by (auto simp only: occurs.simps append_Cons)
  have "take 4 (p @ NL # BT # BT # BT # NL # post) =
      take 4 ((p @ [NL, BT, BT, BT]) @ NL # post)" by simp
  also have "\<dots> = take 4 (p @ [NL, BT, BT, BT])"
    using l by (simp only: take_append) simp
  finally have "\<not> (c = NL \<and> take 4 (p @ NL # BT # BT # BT # NL # post) = [BT, BT, BT, NL])"
    using a by simp
  then have "tag_sub (c # (p @ NL # BT # BT # BT # NL # post)) =
      c # tag_sub (p @ NL # BT # BT # BT # NL # post)"
    by (rule tag_sub_skip)
  with Cons.IH [OF b] show ?case by (simp del: tag_sub.simps)
qed

text \<open>
  C6, amended: the occurrences are rewritten from left to right without overlap. An
  occurrence with no occurrence starting before it is rewritten to the fence with the
  \<^verbatim>\<open>bash\<close> tag, whether the fence opens or closes a block, and the substitution goes on
  with the text after the line feed that ends it.
\<close>

theorem tag_sub_leftmost:
  "\<not> occurs (NL # ''```'' @ [NL]) (pre @ NL # ''```'') \<Longrightarrow>
   tag_sub (pre @ NL # ''```'' @ NL # post) = pre @ NL # ''```bash'' @ NL # tag_sub post"
  using tag_sub_leftmost_aux [of pre post] by simp

theorem tag_sub_leftmost_witness:
  "\<not> occurs (NL # ''```'' @ [NL]) (''text'' @ NL # ''```'') \<and>
   tag_sub (''text'' @ NL # ''```'' @ NL # ''code'' @ NL # ''```'' @ NL # ''more'') =
     ''text'' @ NL # ''```bash'' @ NL # ''code'' @ NL # ''```bash'' @ NL # ''more''"
proof -
  have h: "\<not> occurs (NL # ''```'' @ [NL]) (''text'' @ NL # ''```'')" by simp
  have t: "tag_sub (''code'' @ NL # ''```'' @ NL # ''more'') =
      ''code'' @ NL # ''```bash'' @ NL # ''more''" by simp
  show ?thesis
    using h tag_sub_leftmost [OF h, of "''code'' @ NL # ''```'' @ NL # ''more''"] t
    by (simp del: tag_sub.simps)
qed

section \<open>Bare URLs in angle brackets\<close>

lemma url_scheme_intro: "is_scheme sch \<Longrightarrow> url_scheme (sch @ r) = Some (length sch)"
  by (auto simp: is_scheme_def url_scheme_def)

lemma url_match_intro:
  assumes "is_scheme sch" and "body \<noteq> []" and "list_all url_char body" and "is_space w"
  shows "url_match (sch @ body @ w # post) = Some (sch @ body, w, post)"
proof -
  have s: "url_scheme (sch @ body @ w # post) = Some (length sch)"
    using assms(1) by (rule url_scheme_intro)
  have nw: "\<not> url_char w" using assms(4) by (simp add: url_char_def)
  have t: "takeWhile url_char (body @ w # post) = body"
    using assms(3) nw by (simp add: list_all_iff takeWhile_append2)
  have d: "dropWhile url_char (body @ w # post) = w # post"
    using assms(3) nw by (simp add: list_all_iff dropWhile_append2)
  show ?thesis
    unfolding url_match_def s using assms(2,4) by (simp add: t d)
qed

lemma url_sub_skip:
  "\<not> (is_space c \<and> url_match cs \<noteq> None) \<Longrightarrow> url_sub (c # cs) = c # url_sub cs"
  by (cases "url_match cs") auto

lemma url_sub_match:
  "is_space c \<Longrightarrow> url_match cs = Some (u, w, rest) \<Longrightarrow>
   url_sub (c # cs) = c # CHR ''<'' # u @ CHR ''>'' # w # url_sub rest"
  by simp

text \<open>
  C7 as stated (every URL with white space on both sides is wrapped) fails for two URLs
  that share a white-space character: in \<^verbatim>\<open>"x http://a http://b y"\<close> the second URL has
  a space before and after it, the pattern matches at the space before it, and it is
  left bare, since that space ended the first match.
\<close>

theorem url_sub_adjacent_counterexample:
  "url_match ''http://b y'' = Some (''http://b'', CHR '' '', ''y'') \<and>
   url_sub ''x http://a http://b y'' = ''x <http://a> http://b y''"
  by code_simp

text \<open>
  C7, amended: the matches are replaced from left to right without overlap. A URL
  (\<^verbatim>\<open>http://\<close> or \<^verbatim>\<open>https://\<close> and one or more characters other than white space, \<^verbatim>\<open>)\<close>,
  \<^verbatim>\<open>>\<close>, \<^verbatim>\<open>]\<close>) between two white-space characters, with no match starting before it,
  is put in angle brackets, the two white-space characters are kept, and the substitution
  goes on with the text after the second of them. The witness is the example of the
  specification.
\<close>

theorem url_sub_leftmost:
  assumes "url_free_prefix (length pre) (pre @ w1 # sch @ body @ w2 # post)"
    and "is_space w1" and "is_scheme sch" and "body \<noteq> []" and "list_all url_char body"
    and "is_space w2"
  shows "url_sub (pre @ w1 # sch @ body @ w2 # post) =
     pre @ w1 # CHR ''<'' # sch @ body @ CHR ''>'' # w2 # url_sub post"
  using assms(1)
proof (induction pre)
  case Nil
  have "url_match (sch @ body @ w2 # post) = Some (sch @ body, w2, post)"
    using assms(3-6) by (rule url_match_intro)
  with assms(2) show ?case by (simp del: url_sub.simps add: url_sub_match)
next
  case (Cons c p)
  from Cons.prems have a: "\<not> (is_space c \<and> url_match (p @ w1 # sch @ body @ w2 # post) \<noteq> None)"
    and b: "url_free_prefix (length p) (p @ w1 # sch @ body @ w2 # post)"
    by simp_all
  from a have "url_sub (c # (p @ w1 # sch @ body @ w2 # post)) =
      c # url_sub (p @ w1 # sch @ body @ w2 # post)"
    by (rule url_sub_skip)
  with Cons.IH [OF b] show ?case by (simp del: url_sub.simps)
qed

theorem url_sub_leftmost_witness:
  "url_sub ''See https://example.com for details'' = ''See <https://example.com> for details''"
proof -
  have 1: "url_free_prefix (length ''See'')
      (''See'' @ CHR '' '' # ''https://'' @ ''example.com'' @ CHR '' '' # ''for details'')"
    by code_simp
  have 2: "is_space CHR '' ''" by code_simp
  have 3: "is_scheme ''https://''" by code_simp
  have 4: "''example.com'' \<noteq> []" by simp
  have 5: "list_all url_char ''example.com''" by code_simp
  have 6: "url_sub ''for details'' = ''for details''" by code_simp
  show ?thesis
    using url_sub_leftmost [OF 1 2 3 4 5 2] 6 by (simp del: url_sub.simps)
qed

section \<open>Write-back\<close>

text \<open>
  C9 (the file is overwritten, and \<open>True\<close> returned, exactly when the transformed text
  differs from the text read; otherwise nothing is written and \<open>False\<close> is returned). For
  a file that can be read, and that can be written where the text changes.
\<close>

theorem write_back:
  assumes "contents fs filepath = Some original_content"
    and "fix_text original_content = original_content \<or> writable fs filepath"
  shows "fix_markdown_file fs filepath =
     (if fix_text original_content \<noteq> original_content
      then (Inr True, fs\<lparr>contents := (contents fs)(filepath \<mapsto> fix_text original_content)\<rparr>)
      else (Inr False, fs))"
  using assms by (auto simp: fix_markdown_file_def Let_def)


lemma example_a_fixed:
  "fix_text ''See https://example.com for details'' = ''See <https://example.com> for details''"
  by code_simp

lemma example_b_fixed: "fix_text ''plain text'' = ''plain text''"
  by code_simp

theorem write_back_witness:
  "fix_markdown_file example_files ''a.md'' =
     (Inr True, example_files\<lparr>contents :=
        (contents example_files)(''a.md'' \<mapsto> ''See <https://example.com> for details'')\<rparr>) \<and>
   fix_markdown_file example_files ''b.md'' = (Inr False, example_files)"
proof -
  have a: "contents example_files ''a.md'' = Some ''See https://example.com for details''"
    by (simp add: example_files_def)
  have aw: "fix_text ''See https://example.com for details'' =
      ''See https://example.com for details'' \<or> writable example_files ''a.md''"
    by (simp add: example_files_def)
  have b: "contents example_files ''b.md'' = Some ''plain text''"
    by (simp add: example_files_def)
  have bw: "fix_text ''plain text'' = ''plain text'' \<or> writable example_files ''b.md''"
    by (simp add: example_b_fixed)
  show ?thesis
    using write_back [OF a aw] write_back [OF b bw]
    by (simp add: example_a_fixed example_b_fixed)
qed

section \<open>Idempotence\<close>

subsection \<open>The first pass as a recursion over the lines\<close>

lemma strip_Nil [simp]: "strip [] = []"
  by (simp add: strip_def)

lemma blank_Nil [simp]: "blank []"
  by (simp add: blank_def)

lemma hd0_simps [simp]: "hd0 [] = []" "hd0 (l # ls) = l"
  by (simp_all add: hd0_def)

lemma prev_at_Suc [simp]: "prev_at L (Suc i) = L ! i"
  by (simp add: prev_at_def)










subsection \<open>The first pass leaves every header and list item spaced\<close>

lemma blank_iff: "blank l \<longleftrightarrow> (\<forall>c\<in>set l. is_space c)"
proof
  assume "blank l"
  then have "dropWhile is_space (rev (dropWhile is_space l)) = []"
    by (simp add: blank_def strip_def)
  then have a: "\<forall>c\<in>set (dropWhile is_space l). is_space c"
    by (simp add: dropWhile_eq_Nil_conv)
  have "dropWhile is_space l = []"
  proof (rule ccontr)
    assume ne: "dropWhile is_space l \<noteq> []"
    then have "\<not> is_space (hd (dropWhile is_space l))" by (rule hd_dropWhile)
    moreover from ne have "hd (dropWhile is_space l) \<in> set (dropWhile is_space l)" by simp
    ultimately show False using a by blast
  qed
  then show "\<forall>c\<in>set l. is_space c" by (simp add: dropWhile_eq_Nil_conv)
next
  assume "\<forall>c\<in>set l. is_space c"
  then have e: "dropWhile is_space l = []" by simp
  show "blank l" unfolding blank_def strip_def e by simp
qed

lemma not_space_hash: "\<not> is_space CHR ''#''"
  by code_simp

lemma not_digit_hash: "\<not> is_digit CHR ''#''"
  by code_simp

lemma header_starts_hash: "is_header l \<Longrightarrow> \<exists>r. l = CHR ''#'' # r"
proof -
  assume "is_header l"
  then have "takeWhile (\<lambda>c. c = CHR ''#'') l \<noteq> []"
    by (auto simp: is_header_def Let_def)
  then show ?thesis by (cases l) (auto split: if_splits)
qed

lemma header_not_blank: "is_header l \<Longrightarrow> \<not> blank l"
  using header_starts_hash [of l] not_space_hash by (auto simp: blank_iff)

lemma header_not_list:
  assumes "is_header l"
  shows "\<not> is_list_item l"
proof -
  from assms obtain r where l: "l = CHR ''#'' # r" using header_starts_hash by blast
  have dw: "dropWhile is_space (CHR ''#'' # r) = CHR ''#'' # r"
    using not_space_hash by simp
  have "\<not> is_bullet_item (CHR ''#'' # r)"
    unfolding is_bullet_item_def dw by (cases r) simp_all
  moreover have "\<not> is_ordered_item (CHR ''#'' # r)"
    unfolding is_ordered_item_def Let_def dw using not_digit_hash by simp
  ultimately show ?thesis unfolding l is_list_item_def by blast
qed

lemma list_not_blank:
  assumes "is_list_item l"
  shows "\<not> blank l"
proof
  assume "blank l"
  then have e: "dropWhile is_space l = []" by (simp add: blank_iff)
  have "\<not> is_bullet_item l" unfolding is_bullet_item_def e by simp
  moreover have "\<not> is_ordered_item l" unfolding is_ordered_item_def Let_def e by simp
  ultimately show False using assms unfolding is_list_item_def by blast
qed





lemma not_header_Nil [simp]: "\<not> is_header []"
  by (simp add: is_header_def)

lemma not_list_Nil [simp]: "\<not> is_list_item []"
  by (simp add: is_list_item_def is_bullet_item_def is_ordered_item_def)

lemma ok1_Nil [simp]: "ok1 e [] n"
  by (simp add: ok1_def)





subsection \<open>Lines and texts\<close>

lemma split_nl_ne [simp]: "split_nl s \<noteq> []"
  by (induction s) (auto split: list.splits)










lemma not_fence_Nil [simp]: "\<not> is_fence []"
  by (simp add: is_fence_def)

subsection \<open>What the collapsing of blank lines preserves\<close>







lemma hd0_append: "A \<noteq> [] \<Longrightarrow> hd0 (A @ B) = hd0 A"
  by (cases A) simp_all




subsection \<open>Texts without a URL or e-mail match\<close>











subsection \<open>The second pass as a recursion over the lines\<close>








subsection \<open>The second pass leaves every fence line fenced\<close>




lemma ok2_Nil [simp]: "ok2 e [] n"
  by (simp add: ok2_def)




subsection \<open>The second pass keeps the spacing of the first\<close>

text \<open>A fence line is neither blank nor a header nor a list item, so the lines that the
  second pass adds around it, the fence line again and empty lines, leave every header
  and list item as the first pass spaced it.\<close>

lemma strip_decomp: "\<exists>tr. dropWhile is_space l = strip l @ tr \<and> (\<forall>c\<in>set tr. is_space c)"
proof -
  let ?D = "dropWhile is_space l"
  have "rev (takeWhile is_space (rev ?D) @ dropWhile is_space (rev ?D)) = ?D"
    by (simp only: takeWhile_dropWhile_id rev_rev_ident)
  moreover have "rev (takeWhile is_space (rev ?D) @ dropWhile is_space (rev ?D)) =
      rev (dropWhile is_space (rev ?D)) @ rev (takeWhile is_space (rev ?D))"
    by (rule rev_append)
  ultimately have "?D = strip l @ rev (takeWhile is_space (rev ?D))"
    unfolding strip_def by (rule trans [OF sym])
  moreover have "\<forall>c\<in>set (rev (takeWhile is_space (rev ?D))). is_space c"
    by (auto dest: set_takeWhileD)
  ultimately show ?thesis by blast
qed

lemma not_space_bt: "\<not> is_space BT"
  by code_simp

lemma is_fence_iff: "is_fence l \<longleftrightarrow> take 3 (dropWhile is_space l) = [BT, BT, BT]"
proof -
  let ?D = "dropWhile is_space l"
  obtain tr where d: "?D = strip l @ tr" and tr: "\<forall>c\<in>set tr. is_space c"
    using strip_decomp by blast
  show ?thesis
  proof
    assume "is_fence l"
    then have f: "take 3 (strip l) = [BT, BT, BT]" by (simp add: is_fence_def)
    then have "length (take 3 (strip l)) = 3" by simp
    then have "3 \<le> length (strip l)" by simp
    then have "take 3 (strip l @ tr) = take 3 (strip l)" by simp
    with f d show "take 3 ?D = [BT, BT, BT]" by simp
  next
    assume a: "take 3 ?D = [BT, BT, BT]"
    then have "length (take 3 ?D) = 3" by simp
    then have ld: "3 \<le> length ?D" by simp
    have l3: "3 \<le> length (strip l)"
    proof (rule ccontr)
      assume "\<not> 3 \<le> length (strip l)"
      then have k: "length (strip l) < 3" by simp
      have "length ?D = length (strip l) + length tr" by (subst d) simp
      with ld k have "0 < length tr" by arith
      then have ne: "tr \<noteq> []" by simp
      have "?D ! length (strip l) = tr ! 0" by (subst d) (simp add: nth_append)
      moreover have "tr ! 0 \<in> set tr" using ne by simp
      ultimately have "is_space (?D ! length (strip l))" using tr by simp
      moreover have "take 3 ?D ! length (strip l) = ?D ! length (strip l)"
        using k by (intro nth_take)
      moreover have "[BT, BT, BT] ! length (strip l) = BT"
        using k by (auto simp: nth_Cons' numeral_3_eq_3 less_Suc_eq)
      ultimately show False using a not_space_bt by simp
    qed
    then have "take 3 (strip l @ tr) = take 3 (strip l)" by simp
    with a d show "is_fence l" by (simp add: is_fence_def)
  qed
qed

lemma fence_starts: "is_fence l \<Longrightarrow> \<exists>r. dropWhile is_space l = BT # BT # BT # r"
proof -
  assume "is_fence l"
  then have "take 3 (dropWhile is_space l) = [BT, BT, BT]" by (simp add: is_fence_iff)
  then have "dropWhile is_space l = [BT, BT, BT] @ drop 3 (dropWhile is_space l)"
    using append_take_drop_id [of 3 "dropWhile is_space l"] by simp
  then show ?thesis by auto
qed

lemma fence_not_blank: "is_fence l \<Longrightarrow> \<not> blank l"
proof
  assume f: "is_fence l" and "blank l"
  then have "dropWhile is_space l = []" by (simp add: blank_iff)
  with fence_starts [OF f] show False by simp
qed

lemma fence_not_header: "is_fence l \<Longrightarrow> \<not> is_header l"
proof
  assume f: "is_fence l" and "is_header l"
  then obtain r where l: "l = CHR ''#'' # r" using header_starts_hash by blast
  have "dropWhile is_space l = l" unfolding l using not_space_hash by simp
  with fence_starts [OF f] l show False by simp
qed

lemma fence_not_list: "is_fence l \<Longrightarrow> \<not> is_list_item l"
proof -
  assume f: "is_fence l"
  then obtain r where d: "dropWhile is_space l = BT # BT # BT # r" using fence_starts by blast
  have nd: "\<not> is_digit BT" by code_simp
  have "\<not> is_bullet_item l" unfolding is_bullet_item_def d by simp
  moreover have "\<not> is_ordered_item l"
    unfolding is_ordered_item_def Let_def d using nd by simp
  ultimately show ?thesis unfolding is_list_item_def by blast
qed

lemma ok1_fence [simp]: "is_fence l \<Longrightarrow> ok1 p l n"
  by (simp add: ok1_def fence_not_header fence_not_list)





subsection \<open>The class of a line in which a URL or an address is wrapped\<close>




















subsection \<open>The substitutions keep the shape of the text\<close>





















subsection \<open>The result of a run is spaced and fenced\<close>


















subsection \<open>The fixed points of the transformation\<close>















subsection \<open>Two runs\<close>




text \<open>The result of that first run is not match-free: the URL pattern matches at the
  second URL.\<close>

lemma leftover_match_example: "\<not> match_free (fix_text ''x http://a http://b y'')"
  by code_simp

text \<open>The same happens with the fence tagging on an empty code block: the first run
  tags the opening fence, the second run the closing one.\<close>

lemma fix_text_not_idempotent_fences:
  "fix_text (join_nl [''x'', [], ''```'', ''```'', [], ''y'']) =
     join_nl [''x'', [], ''```bash'', ''```'', [], ''y''] \<and>
   fix_text (fix_text (join_nl [''x'', [], ''```'', ''```'', [], ''y''])) =
     join_nl [''x'', [], ''```bash'', ''```bash'', [], ''y'']"
  by code_simp

text \<open>And with one bare fence line between two lines of text: the second pass repeats the
  fence line, the first run tags the first of the two and the second run the other.\<close>

lemma fix_text_not_idempotent_doubled_fence:
  "fix_text (join_nl [''a'', ''```'', ''b'']) =
     join_nl [''a'', [], ''```bash'', ''```'', [], ''b''] \<and>
   fix_text (fix_text (join_nl [''a'', ''```'', ''b''])) =
     join_nl [''a'', [], ''```bash'', ''```bash'', [], ''b'']"
  by code_simp

end
